theory Spec2Isabelle
  imports Complex_Main
begin

section \<open>The rate limiter of RateLimitContext.tsx\<close>

text \<open>
  A shallow embedding of \<^verbatim>\<open>src/components/contexts/RateLimitContext.tsx\<close>.

  \<^item> A JavaScript \<^verbatim>\<open>number\<close> that counts tokens is a \<^typ>\<open>real\<close>: the arithmetic of the
    source (\<^verbatim>\<open>max * (1 - buffer / 100)\<close>, \<^verbatim>\<open>x - 1\<close>, \<^verbatim>\<open>Math.max\<close>, \<^verbatim>\<open><=\<close>) is read
    exactly, without the rounding of doubles and without \<^verbatim>\<open>NaN\<close>. A timestamp
    (\<^verbatim>\<open>Date.now()\<close>, integer milliseconds) is an \<^typ>\<open>int\<close>. A configuration that is not
    numeric makes the counters \<^verbatim>\<open>NaN\<close>: the construction of the provider and
    \<^verbatim>\<open>consumeToken\<close> are given a second time over numbers with \<^verbatim>\<open>NaN\<close>, and shown to
    agree with the first on numeric configurations.
  \<^item> \<^verbatim>\<open>Date.now()\<close> is an input: every callback that reads the clock takes the value
    it reads as an argument.
  \<^item> The refs (\<^verbatim>\<open>useRef\<close>) and the display state (\<^verbatim>\<open>useState\<close>) of the provider are the
    fields of one record that every operation takes and returns.
  \<^item> A promise is a value: fulfilled, rejected, or pending for ever.
\<close>

subsection \<open>Configuration\<close>

datatype error = Error string

text \<open>
  The two environment variables (absent: \<^verbatim>\<open>undefined\<close>, so \<^verbatim>\<open>??\<close> takes the default) and
  the \<^verbatim>\<open>bufferPercentage\<close> prop of the provider (absent: the default of the parameter).
\<close>

record config =
  env_RATE_LIMIT_PER_SECOND :: "real option"
  env_RATE_LIMIT_PER_MINUTE :: "real option"
  prop_bufferPercentage :: "real option"

definition DATOCMS_CDA_RATE_LIMIT_PER_SECOND :: "config \<Rightarrow> real" where
  "DATOCMS_CDA_RATE_LIMIT_PER_SECOND cfg =
     (case env_RATE_LIMIT_PER_SECOND cfg of None \<Rightarrow> 60 | Some v \<Rightarrow> v)"

definition DATOCMS_CDA_RATE_LIMIT_PER_MINUTE :: "config \<Rightarrow> real" where
  "DATOCMS_CDA_RATE_LIMIT_PER_MINUTE cfg =
     (case env_RATE_LIMIT_PER_MINUTE cfg of None \<Rightarrow> 1000 | Some v \<Rightarrow> v)"

definition bufferPercentage :: "config \<Rightarrow> real" where
  "bufferPercentage cfg = (case prop_bufferPercentage cfg of None \<Rightarrow> 10 | Some b \<Rightarrow> b)"

definition adjustedMaxTokensPerSecond :: "config \<Rightarrow> real" where
  "adjustedMaxTokensPerSecond cfg =
     DATOCMS_CDA_RATE_LIMIT_PER_SECOND cfg * (1 - bufferPercentage cfg / 100)"

definition adjustedMaxTokensPerMinute :: "config \<Rightarrow> real" where
  "adjustedMaxTokensPerMinute cfg =
     DATOCMS_CDA_RATE_LIMIT_PER_MINUTE cfg * (1 - bufferPercentage cfg / 100)"

subsection \<open>The state of the provider\<close>

text \<open>
  The four values the context shows (React state, lines 70--79), then the state the
  logic uses (the refs of lines 62--67 and 106--107).
\<close>

record display =
  tokensPerSecondRemaining :: real
  tokensPerMinuteRemaining :: real
  perSecondCountdown :: real
  perMinuteCountdown :: real

record limiter = display +
  tokensPerSecondRemainingRef :: real
  tokensPerMinuteRemainingRef :: real
  nextPerSecondRefill :: int
  nextPerMinuteRefill :: int

text \<open>
  The first render (lines 49--107). \<open>now1\<close> and \<open>now2\<close> are the two readings of
  \<^verbatim>\<open>Date.now()\<close> of lines 106 and 107.
\<close>

definition initialLimiter :: "config \<Rightarrow> int \<Rightarrow> int \<Rightarrow> limiter" where
  "initialLimiter cfg now1 now2 =
     \<lparr> tokensPerSecondRemaining = adjustedMaxTokensPerSecond cfg,
       tokensPerMinuteRemaining = adjustedMaxTokensPerMinute cfg,
       perSecondCountdown = 0,
       perMinuteCountdown = 0,
       tokensPerSecondRemainingRef = adjustedMaxTokensPerSecond cfg,
       tokensPerMinuteRemainingRef = adjustedMaxTokensPerMinute cfg,
       nextPerSecondRefill = now1 + 1000,
       nextPerMinuteRefill = now2 + 60000 \<rparr>"

subsection \<open>Timers\<close>

text \<open>\<^verbatim>\<open>updateCountdowns\<close> (lines 110--118); \<open>now\<close> is its \<^verbatim>\<open>Date.now()\<close>.\<close>

definition updateCountdowns :: "int \<Rightarrow> limiter \<Rightarrow> limiter" where
  "updateCountdowns now l =
     l\<lparr> perSecondCountdown := max (real_of_int (nextPerSecondRefill l - now) / 1000) 0,
        perMinuteCountdown := max (real_of_int (nextPerMinuteRefill l - now) / 1000) 0 \<rparr>"

text \<open>The callback of \<^verbatim>\<open>perSecondInterval\<close> (lines 124--130).\<close>

definition perSecondInterval :: "config \<Rightarrow> int \<Rightarrow> limiter \<Rightarrow> limiter" where
  "perSecondInterval cfg now l =
     l\<lparr> tokensPerSecondRemainingRef := adjustedMaxTokensPerSecond cfg,
        tokensPerSecondRemaining := adjustedMaxTokensPerSecond cfg,
        nextPerSecondRefill := now + 1000 \<rparr>"

text \<open>The callback of \<^verbatim>\<open>perMinuteInterval\<close> (lines 132--141).\<close>

definition perMinuteInterval :: "config \<Rightarrow> int \<Rightarrow> limiter \<Rightarrow> limiter" where
  "perMinuteInterval cfg now l =
     l\<lparr> tokensPerMinuteRemainingRef := adjustedMaxTokensPerMinute cfg,
        tokensPerMinuteRemaining := adjustedMaxTokensPerMinute cfg,
        tokensPerSecondRemainingRef := adjustedMaxTokensPerSecond cfg,
        tokensPerSecondRemaining := adjustedMaxTokensPerSecond cfg,
        nextPerMinuteRefill := now + 60000 \<rparr>"

text \<open>
  One firing of one of the three intervals of the effect, with the clock value its
  callback reads.
\<close>

datatype timer = CountdownInterval int | PerSecondInterval int | PerMinuteInterval int

fun fire :: "config \<Rightarrow> timer \<Rightarrow> limiter \<Rightarrow> limiter" where
  "fire cfg (CountdownInterval now) l = updateCountdowns now l"
| "fire cfg (PerSecondInterval now) l = perSecondInterval cfg now l"
| "fire cfg (PerMinuteInterval now) l = perMinuteInterval cfg now l"

text \<open>The timer callbacks that run, in this order, while a caller is suspended.\<close>

definition runTimers :: "config \<Rightarrow> timer list \<Rightarrow> limiter \<Rightarrow> limiter" where
  "runTimers cfg ts l = fold (fire cfg) ts l"

subsection \<open>consumeToken\<close>

text \<open>The loop condition of lines 83--86.\<close>

definition blocked :: "limiter \<Rightarrow> bool" where
  "blocked l \<longleftrightarrow> tokensPerSecondRemainingRef l \<le> 0 \<or> tokensPerMinuteRemainingRef l \<le> 0"

text \<open>Lines 91--102: the two refs, then the two display values set from the refs.\<close>

definition takeTokens :: "limiter \<Rightarrow> limiter" where
  "takeTokens l =
     (let l1 = l\<lparr> tokensPerSecondRemainingRef := max (tokensPerSecondRemainingRef l - 1) 0 \<rparr>;
          l2 = l1\<lparr> tokensPerMinuteRemainingRef := max (tokensPerMinuteRemainingRef l1 - 1) 0 \<rparr>
      in l2\<lparr> tokensPerSecondRemaining := tokensPerSecondRemainingRef l2,
             tokensPerMinuteRemaining := tokensPerMinuteRemainingRef l2 \<rparr>)"

text \<open>
  \<^verbatim>\<open>consumeToken\<close> (lines 82--103). Each pass of the loop waits 100 ms; what the timers
  do during the waits is the schedule, one list of firings per wait. The call returns
  the state it leaves and the part of the schedule it has not used. \<open>None\<close>: the
  schedule has ended and the call is still suspended.
\<close>

type_synonym schedule = "timer list list"

fun consumeToken :: "config \<Rightarrow> schedule \<Rightarrow> limiter \<Rightarrow> (limiter \<times> schedule) option" where
  "consumeToken cfg [] l = (if blocked l then None else Some (takeTokens l, []))"
| "consumeToken cfg (t # sched) l =
     (if blocked l then consumeToken cfg sched (runTimers cfg t l)
      else Some (takeTokens l, t # sched))"

text \<open>The state a suspended caller sees after \<open>n\<close> waits of a schedule.\<close>

definition afterWaits :: "config \<Rightarrow> schedule \<Rightarrow> nat \<Rightarrow> limiter \<Rightarrow> limiter" where
  "afterWaits cfg sched n l = fold (runTimers cfg) (take n sched) l"

subsection \<open>The provider over numbers with NaN\<close>


























subsection \<open>executePromisesWithRateLimit\<close>

datatype 'a promise = Fulfilled 'a | Rejected error | Pending

text \<open>
  A task producer is opaque to the limiter. What the limiter can see of one call is the
  promise it returns: how it settles, and which timer callbacks run while the caller
  awaits it. A producer that throws is a producer whose promise rejects, since the call
  stands under \<^verbatim>\<open>await\<close> in an async function.
\<close>

datatype 'a promiseFn = PromiseFn (elapsed: "timer list") (settles: "'a promise")

text \<open>
  What a run does, in the order it does it: a token taken (line 161), a producer called
  (line 162), an outcome pushed on \<^verbatim>\<open>results\<close> (line 163), the progress callback called
  with its two arguments (line 165). The callback \<^verbatim>\<open>onProgressUpdate\<close> is the caller's and
  opaque to the limiter, so it is not a parameter here: each call of it is recorded
  with the arguments it is given, and it is taken to return normally (its type is
  \<^verbatim>\<open>(completed, pending) => void\<close>). The loop has no \<^verbatim>\<open>try\<close>: a callback that throws would
  end the run as a rejected producer does, and such runs are not among those modelled.
\<close>

datatype 'a obs = Acquired | Called "'a promiseFn" | Pushed 'a | Progress nat int

record 'a world =
  provider :: limiter
  remaining :: schedule
  trace :: "'a obs list"

text \<open>
  The \<^verbatim>\<open>for ... of\<close> loop of lines 160--166 with its three locals. A promise that stays
  pending leaves the run pending; a rejected one leaves the loop and the function. When
  the schedule ends while \<^verbatim>\<open>consumeToken\<close> is suspended, the run is pending in the state
  the timers have left.
\<close>

fun forOf ::
  "config \<Rightarrow> nat \<Rightarrow> 'a promiseFn list \<Rightarrow> 'a list \<Rightarrow> nat \<Rightarrow> 'a world
     \<Rightarrow> 'a list promise \<times> 'a world" where
  "forOf cfg totalPromises [] results completed w = (Fulfilled results, w)"
| "forOf cfg totalPromises (promiseFn # rest) results completed w =
     (case consumeToken cfg (remaining w) (provider w) of
        None \<Rightarrow>
          (Pending,
           w\<lparr> provider := afterWaits cfg (remaining w) (length (remaining w)) (provider w),
              remaining := [] \<rparr>)
      | Some (l, sched') \<Rightarrow>
          (let w1 = w\<lparr> provider := runTimers cfg (elapsed promiseFn) l,
                        remaining := sched',
                        trace := trace w @ [Acquired, Called promiseFn] \<rparr>
           in case settles promiseFn of
                Pending \<Rightarrow> (Pending, w1)
              | Rejected e \<Rightarrow> (Rejected e, w1)
              | Fulfilled result \<Rightarrow>
                  forOf cfg totalPromises rest (results @ [result]) (completed + 1)
                    (w1\<lparr> trace := trace w1 @
                          [Pushed result,
                           Progress (completed + 1)
                             (int totalPromises - int (completed + 1))] \<rparr>)))"

definition executePromisesWithRateLimit ::
  "config \<Rightarrow> 'a promiseFn list \<Rightarrow> 'a world \<Rightarrow> 'a list promise \<times> 'a world" where
  "executePromisesWithRateLimit cfg promiseFns w =
     forOf cfg (length promiseFns) promiseFns [] 0 w"

subsection \<open>The context and useRateLimit\<close>

record 'a RateLimitContextProps = display +
  consumeToken_prop :: "schedule \<Rightarrow> limiter \<Rightarrow> (limiter \<times> schedule) option"
  executePromisesWithRateLimit_prop ::
    "'a promiseFn list \<Rightarrow> 'a world \<Rightarrow> 'a list promise \<times> 'a world"

text \<open>The default value given to \<^verbatim>\<open>createContext\<close> (lines 31--38).\<close>

definition RateLimitContext :: "config \<Rightarrow> 'a RateLimitContextProps" where
  "RateLimitContext cfg =
     \<lparr> tokensPerSecondRemaining = DATOCMS_CDA_RATE_LIMIT_PER_SECOND cfg,
       tokensPerMinuteRemaining = DATOCMS_CDA_RATE_LIMIT_PER_MINUTE cfg,
       perSecondCountdown = 0,
       perMinuteCountdown = 0,
       consumeToken_prop = (\<lambda>sched l. Some (l, sched)),
       executePromisesWithRateLimit_prop = (\<lambda>promiseFns w. (Fulfilled [], w)) \<rparr>"

text \<open>The value the provider passes down (lines 175--182).\<close>

definition providerValue :: "config \<Rightarrow> limiter \<Rightarrow> 'a RateLimitContextProps" where
  "providerValue cfg l =
     \<lparr> tokensPerSecondRemaining = tokensPerSecondRemaining l,
       tokensPerMinuteRemaining = tokensPerMinuteRemaining l,
       perSecondCountdown = perSecondCountdown l,
       perMinuteCountdown = perMinuteCountdown l,
       consumeToken_prop = consumeToken cfg,
       executePromisesWithRateLimit_prop = executePromisesWithRateLimit cfg \<rparr>"

text \<open>
  What a variable of the source can hold where the source tests it for truthiness.
\<close>

datatype 'a js = Undefined | Object 'a

text \<open>
  \<^verbatim>\<open>useContext(RateLimitContext)\<close>: the value of the nearest provider above the caller,
  and the default value of the context when there is none.
\<close>

definition useContext ::
  "config \<Rightarrow> 'a RateLimitContextProps option \<Rightarrow> 'a RateLimitContextProps js" where
  "useContext cfg nearest =
     (case nearest of None \<Rightarrow> Object (RateLimitContext cfg) | Some v \<Rightarrow> Object v)"

text \<open>\<^verbatim>\<open>useRateLimit\<close> (lines 190--196).\<close>

definition useRateLimit ::
  "config \<Rightarrow> 'a RateLimitContextProps option \<Rightarrow> error + 'a RateLimitContextProps" where
  "useRateLimit cfg nearest =
     (case useContext cfg nearest of
        Undefined \<Rightarrow> Inl (Error ''useRateLimit must be used within a RateLimitProvider'')
      | Object context \<Rightarrow> Inr context)"

subsection \<open>Vocabulary of the properties\<close>

text \<open>The four values an observer reads from the context.\<close>

definition snapshot :: "limiter \<Rightarrow> display" where
  "snapshot l =
     \<lparr> tokensPerSecondRemaining = tokensPerSecondRemaining l,
       tokensPerMinuteRemaining = tokensPerMinuteRemaining l,
       perSecondCountdown = perSecondCountdown l,
       perMinuteCountdown = perMinuteCountdown l \<rparr>"

text \<open>The bounds on the two counters the logic uses.\<close>

definition bounds :: "config \<Rightarrow> limiter \<Rightarrow> bool" where
  "bounds cfg l \<longleftrightarrow>
     0 \<le> tokensPerSecondRemainingRef l
     \<and> tokensPerSecondRemainingRef l \<le> adjustedMaxTokensPerSecond cfg
     \<and> 0 \<le> tokensPerMinuteRemainingRef l
     \<and> tokensPerMinuteRemainingRef l \<le> adjustedMaxTokensPerMinute cfg"

text \<open>
  Every synchronous stretch of code that writes a counter: a caller of
  \<^verbatim>\<open>consumeToken\<close> that tests the loop condition and, when it is false, goes on to lines
  91--102; and the three timer callbacks. A render of the provider with another
  \<^verbatim>\<open>bufferPercentage\<close> writes no counter but changes the capacities: the memoised
  values of lines 53--59 are computed again, the refs and the state keep what they hold
  (\<^verbatim>\<open>useRef\<close> and \<^verbatim>\<open>useState\<close> read their argument at the first render only), and the
  effect of lines 109--148 replaces the three intervals by new ones that use the new
  capacities. Any number of callers, timers and renders interleave as a list of such
  stretches, run from a configuration and a state.
\<close>

datatype action = ConsumeAttempt | Fire timer | Rerender "real option"

fun act :: "action \<Rightarrow> config \<times> limiter \<Rightarrow> config \<times> limiter" where
  "act ConsumeAttempt (cfg, l) = (cfg, if blocked l then l else takeTokens l)"
| "act (Fire t) (cfg, l) = (cfg, fire cfg t l)"
| "act (Rerender b) (cfg, l) = (cfg\<lparr> prop_bufferPercentage := b \<rparr>, l)"

definition interleaving :: "action list \<Rightarrow> config \<times> limiter \<Rightarrow> config \<times> limiter" where
  "interleaving acts s = fold act acts s"

text \<open>An action that leaves the configuration as it is.\<close>

fun keepsConfig :: "action \<Rightarrow> bool" where
  "keepsConfig (Rerender b) = False"
| "keepsConfig ConsumeAttempt = True"
| "keepsConfig (Fire t) = True"

text \<open>Capacities that are not negative, and an action that brings no negative capacity.\<close>

definition capacitiesNonNegative :: "config \<Rightarrow> bool" where
  "capacitiesNonNegative cfg \<longleftrightarrow>
     0 \<le> adjustedMaxTokensPerSecond cfg \<and> 0 \<le> adjustedMaxTokensPerMinute cfg"

fun keepsCapacitiesNonNegative :: "config \<Rightarrow> action \<Rightarrow> bool" where
  "keepsCapacitiesNonNegative cfg (Rerender b) =
     capacitiesNonNegative (cfg\<lparr> prop_bufferPercentage := b \<rparr>)"
| "keepsCapacitiesNonNegative cfg ConsumeAttempt = True"
| "keepsCapacitiesNonNegative cfg (Fire t) = True"

text \<open>The lower bound alone.\<close>

definition nonNegative :: "limiter \<Rightarrow> bool" where
  "nonNegative l \<longleftrightarrow> 0 \<le> tokensPerSecondRemainingRef l \<and> 0 \<le> tokensPerMinuteRemainingRef l"

text \<open>
  A wait during which the per-minute interval fires, and a schedule in which it fires
  at least once in every \<open>k\<close> waits in a row.
\<close>

fun isPerMinute :: "timer \<Rightarrow> bool" where
  "isPerMinute (PerMinuteInterval now) = True"
| "isPerMinute (PerSecondInterval now) = False"
| "isPerMinute (CountdownInterval now) = False"

definition replenishes :: "timer list \<Rightarrow> bool" where
  "replenishes t = list_ex isPerMinute t"

fun refillsWithin :: "nat \<Rightarrow> schedule \<Rightarrow> bool" where
  "refillsWithin k [] = True"
| "refillsWithin k (t # sched) =
     ((length (t # sched) < k \<or> list_ex replenishes (take k (t # sched)))
      \<and> refillsWithin k sched)"

text \<open>
  The run the specification describes for a queue whose producers all fulfil: task after
  task, each one acquired, called, recorded and reported before the next.
\<close>

fun sequentialTrace :: "nat \<Rightarrow> nat \<Rightarrow> ('a promiseFn \<times> 'a) list \<Rightarrow> 'a obs list" where
  "sequentialTrace n completed [] = []"
| "sequentialTrace n completed ((f, v) # rest) =
     [Acquired, Called f, Pushed v,
      Progress (completed + 1) (int n - int (completed + 1))]
     @ sequentialTrace n (completed + 1) rest"

fun isProgress :: "'a obs \<Rightarrow> bool" where
  "isProgress (Progress c p) = True"
| "isProgress Acquired = False"
| "isProgress (Called f) = False"
| "isProgress (Pushed v) = False"

fun calledOf :: "'a obs list \<Rightarrow> 'a promiseFn list" where
  "calledOf [] = []"
| "calledOf (Called f # tr) = f # calledOf tr"
| "calledOf (Acquired # tr) = calledOf tr"
| "calledOf (Pushed v # tr) = calledOf tr"
| "calledOf (Progress c p # tr) = calledOf tr"

text \<open>Both counters stand at their capacity.\<close>

definition full :: "config \<Rightarrow> limiter \<Rightarrow> bool" where
  "full cfg l \<longleftrightarrow>
     tokensPerSecondRemainingRef l = adjustedMaxTokensPerSecond cfg
     \<and> tokensPerMinuteRemainingRef l = adjustedMaxTokensPerMinute cfg"

text \<open>
  No environment variable and no prop: 60 per second, 1000 per minute, a buffer of 10
  percent, hence capacities of 54 and 900.
\<close>

definition defaults :: config where
  "defaults =
     \<lparr> env_RATE_LIMIT_PER_SECOND = None, env_RATE_LIMIT_PER_MINUTE = None,
       prop_bufferPercentage = None \<rparr>"

section \<open>Properties\<close>

subsection \<open>Capacities and single steps\<close>

lemma defaults_capacity:
  "adjustedMaxTokensPerSecond defaults = 54" "adjustedMaxTokensPerMinute defaults = 900"
  by (simp_all add: defaults_def adjustedMaxTokensPerSecond_def adjustedMaxTokensPerMinute_def
      DATOCMS_CDA_RATE_LIMIT_PER_SECOND_def DATOCMS_CDA_RATE_LIMIT_PER_MINUTE_def
      bufferPercentage_def)

lemma takeTokens_refs:
  "tokensPerSecondRemainingRef (takeTokens l) = max (tokensPerSecondRemainingRef l - 1) 0"
  "tokensPerMinuteRemainingRef (takeTokens l) = max (tokensPerMinuteRemainingRef l - 1) 0"
  by (simp_all add: takeTokens_def Let_def)

lemma full_fire: "full cfg l \<Longrightarrow> full cfg (fire cfg t l)"
  by (cases t)
    (simp_all add: full_def updateCountdowns_def perSecondInterval_def perMinuteInterval_def)

lemma full_fold: "full cfg l \<Longrightarrow> full cfg (fold (fire cfg) ts l)"
  by (induction ts arbitrary: l) (simp_all add: full_fire)


lemma full_perMinute: "isPerMinute t \<Longrightarrow> full cfg (fire cfg t l)"
  by (cases t) (simp_all add: full_def perMinuteInterval_def)

lemma replenishes_full: "replenishes ts \<Longrightarrow> full cfg (runTimers cfg ts l)"
  unfolding replenishes_def runTimers_def
proof (induction ts arbitrary: l)
  case Nil
  then show ?case by simp
next
  case (Cons t ts)
  show ?case
  proof (cases "isPerMinute t")
    case True
    then show ?thesis by (simp add: full_perMinute full_fold)
  next
    case False
    with Cons.prems have "list_ex isPerMinute ts" by simp
    then show ?thesis by (simp add: Cons.IH)
  qed
qed

lemma full_not_blocked:
  "0 < adjustedMaxTokensPerSecond cfg \<Longrightarrow> 0 < adjustedMaxTokensPerMinute cfg \<Longrightarrow> full cfg l
   \<Longrightarrow> \<not> blocked l"
  by (simp add: full_def blocked_def)



subsection \<open>consumeToken\<close>

lemma afterWaits_0: "afterWaits cfg sched 0 l = l"
  by (simp add: afterWaits_def)

lemma afterWaits_Suc:
  "afterWaits cfg (t # sched) (Suc n) l = afterWaits cfg sched n (runTimers cfg t l)"
  by (simp add: afterWaits_def)

text \<open>
  A call returns exactly when some wait of the schedule ends with both counters
  positive; it returns at the first such wait, with the tokens taken from the state it
  finds there and the rest of the schedule untouched.
\<close>

lemma consumeToken_Some_iff:
  "consumeToken cfg sched l = Some (l', sched') \<longleftrightarrow>
     (\<exists>n\<le>length sched.
        (\<forall>j<n. blocked (afterWaits cfg sched j l))
        \<and> \<not> blocked (afterWaits cfg sched n l)
        \<and> l' = takeTokens (afterWaits cfg sched n l)
        \<and> sched' = drop n sched)"
  (is "?L sched l \<longleftrightarrow> (\<exists>n\<le>length sched. ?P sched l n)")
proof (induction sched arbitrary: l)
  case Nil
  then show ?case by (auto simp: afterWaits_0)
next
  case (Cons t sched)
  show ?case
  proof (cases "blocked l")
    case False
    have "?P (t # sched) l n \<longleftrightarrow> n = 0 \<and> l' = takeTokens l \<and> sched' = t # sched" for n
    proof (cases n)
      case 0
      then show ?thesis using False by (auto simp: afterWaits_0)
    next
      case (Suc m)
      then have "\<not> (\<forall>j<n. blocked (afterWaits cfg (t # sched) j l))"
        using False by (auto simp: afterWaits_0 intro!: exI[of _ 0])
      then show ?thesis using Suc by simp
    qed
    then show ?thesis using False by auto
  next
    case True
    have step: "?P (t # sched) l n \<longleftrightarrow> (\<exists>m. n = Suc m \<and> ?P sched (runTimers cfg t l) m)"
      for n
    proof (cases n)
      case 0
      then show ?thesis using True by (simp add: afterWaits_0)
    next
      case (Suc m)
      have "(\<forall>j<Suc m. blocked (afterWaits cfg (t # sched) j l)) \<longleftrightarrow>
            (\<forall>j<m. blocked (afterWaits cfg sched j (runTimers cfg t l)))"
        using True by (auto simp: less_Suc_eq_0_disj afterWaits_0 afterWaits_Suc)
      then show ?thesis using Suc by (simp add: afterWaits_Suc)
    qed
    have "?L (t # sched) l \<longleftrightarrow> ?L sched (runTimers cfg t l)"
      using True by simp
    also have "\<dots> \<longleftrightarrow> (\<exists>m\<le>length sched. ?P sched (runTimers cfg t l) m)"
      by (rule Cons.IH)
    also have "\<dots> \<longleftrightarrow> (\<exists>n\<le>length (t # sched). ?P (t # sched) l n)"
      unfolding step by (auto simp: Suc_le_eq)
    finally show ?thesis .
  qed
qed

lemma consumeToken_None_iff:
  "consumeToken cfg sched l = None \<longleftrightarrow>
     (\<forall>n\<le>length sched. blocked (afterWaits cfg sched n l))"
proof (induction sched arbitrary: l)
  case Nil
  then show ?case by (simp add: afterWaits_0)
next
  case (Cons t sched)
  have split: "(\<forall>n\<le>Suc k. Q n) \<longleftrightarrow> Q 0 \<and> (\<forall>n\<le>k. Q (Suc n))" for k and Q :: "nat \<Rightarrow> bool"
    by (metis Suc_le_mono le0 not0_implies_Suc)
  show ?case
  proof (cases "blocked l")
    case False
    then show ?thesis by (auto simp: afterWaits_0 intro!: exI[of _ 0])
  next
    case True
    then show ?thesis
      by (simp add: Cons.IH split afterWaits_0 afterWaits_Suc)
  qed
qed

text \<open>
  C2. \<^verbatim>\<open>consumeToken\<close> stays suspended as long as every wait so far has ended with the
  per-second counter or the per-minute counter at or below zero. It returns at the first
  wait that ends with both counters positive, having replaced each counter \<open>x\<close> by
  \<open>max (x - 1) 0\<close>, and it never returns a state in which a counter is negative.
\<close>

theorem consumeToken_contract:
  "(consumeToken cfg sched l = None \<longleftrightarrow>
      (\<forall>n\<le>length sched. blocked (afterWaits cfg sched n l)))
   \<and> (consumeToken cfg sched l = Some (l', sched') \<longleftrightarrow>
      (\<exists>n\<le>length sched.
         (\<forall>j<n. blocked (afterWaits cfg sched j l))
         \<and> \<not> blocked (afterWaits cfg sched n l)
         \<and> l' = takeTokens (afterWaits cfg sched n l)
         \<and> sched' = drop n sched))
   \<and> (blocked l \<longleftrightarrow>
        tokensPerSecondRemainingRef l \<le> 0 \<or> tokensPerMinuteRemainingRef l \<le> 0)
   \<and> tokensPerSecondRemainingRef (takeTokens l) = max (tokensPerSecondRemainingRef l - 1) 0
   \<and> tokensPerMinuteRemainingRef (takeTokens l) = max (tokensPerMinuteRemainingRef l - 1) 0
   \<and> (consumeToken cfg sched l = Some (l', sched') \<longrightarrow>
        0 \<le> tokensPerSecondRemainingRef l' \<and> 0 \<le> tokensPerMinuteRemainingRef l')"
proof -
  have "0 \<le> tokensPerSecondRemainingRef l' \<and> 0 \<le> tokensPerMinuteRemainingRef l'"
    if "consumeToken cfg sched l = Some (l', sched')"
  proof -
    from that obtain n where "l' = takeTokens (afterWaits cfg sched n l)"
      unfolding consumeToken_Some_iff by blast
    then show ?thesis by (simp add: takeTokens_refs)
  qed
  then show ?thesis
    using consumeToken_None_iff[of cfg sched l] consumeToken_Some_iff[of cfg sched l l' sched']
      takeTokens_refs[of l] blocked_def[of l]
    by blast
qed

text \<open>
  A caller that finds the second counter empty waits through a countdown tick and
  returns after the per-second refill.
\<close>

theorem consumeToken_contract_witness:
  "consumeToken defaults [[CountdownInterval 100], [PerSecondInterval 1000]]
     ((initialLimiter defaults 0 0)\<lparr> tokensPerSecondRemainingRef := 0 \<rparr>)
   = Some (\<lparr> tokensPerSecondRemaining = 53, tokensPerMinuteRemaining = 899,
             perSecondCountdown = 9 / 10, perMinuteCountdown = 599 / 10,
             tokensPerSecondRemainingRef = 53, tokensPerMinuteRemainingRef = 899,
             nextPerSecondRefill = 2000, nextPerMinuteRefill = 60000 \<rparr>, [])
   \<and> 0 \<le> tokensPerSecondRemainingRef
        \<lparr> tokensPerSecondRemaining = 53, tokensPerMinuteRemaining = 899,
          perSecondCountdown = 9 / 10, perMinuteCountdown = 599 / 10,
          tokensPerSecondRemainingRef = 53, tokensPerMinuteRemainingRef = 899,
          nextPerSecondRefill = 2000, nextPerMinuteRefill = (60000::int) \<rparr>"
proof -
  have h: "consumeToken defaults [[CountdownInterval 100], [PerSecondInterval 1000]]
     ((initialLimiter defaults 0 0)\<lparr> tokensPerSecondRemainingRef := 0 \<rparr>)
   = Some (\<lparr> tokensPerSecondRemaining = 53, tokensPerMinuteRemaining = 899,
             perSecondCountdown = 9 / 10, perMinuteCountdown = 599 / 10,
             tokensPerSecondRemainingRef = 53, tokensPerMinuteRemainingRef = 899,
             nextPerSecondRefill = 2000, nextPerMinuteRefill = 60000 \<rparr>, [])"
    by (simp add: initialLimiter_def defaults_capacity blocked_def runTimers_def
        updateCountdowns_def perSecondInterval_def takeTokens_def Let_def)
  from consumeToken_contract[of defaults "[[CountdownInterval 100], [PerSecondInterval 1000]]"
      "(initialLimiter defaults 0 0)\<lparr> tokensPerSecondRemainingRef := 0 \<rparr>" _ "[]"] h
  show ?thesis by blast
qed

subsection \<open>The bounds on the counters\<close>

lemma bounds_takeTokens: "bounds cfg l \<Longrightarrow> bounds cfg (takeTokens l)"
  by (auto simp: bounds_def takeTokens_refs)

lemma bounds_fire: "bounds cfg l \<Longrightarrow> bounds cfg (fire cfg t l)"
  by (cases t)
    (auto simp: bounds_def updateCountdowns_def perSecondInterval_def perMinuteInterval_def)

lemma bounds_runTimers: "bounds cfg l \<Longrightarrow> bounds cfg (runTimers cfg ts l)"
  unfolding runTimers_def by (induction ts arbitrary: l) (simp_all add: bounds_fire)

lemma bounds_waits: "bounds cfg l \<Longrightarrow> bounds cfg (fold (runTimers cfg) ticks l)"
  by (induction ticks arbitrary: l) (simp_all add: bounds_runTimers)

lemma bounds_afterWaits: "bounds cfg l \<Longrightarrow> bounds cfg (afterWaits cfg sched n l)"
  by (simp add: afterWaits_def bounds_waits)

lemma bounds_act:
  "keepsConfig a \<Longrightarrow> bounds cfg l
   \<Longrightarrow> fst (act a (cfg, l)) = cfg \<and> bounds cfg (snd (act a (cfg, l)))"
  by (cases a) (simp_all add: bounds_takeTokens bounds_fire)

lemma bounds_interleaving:
  "list_all keepsConfig acts \<Longrightarrow> bounds cfg l
   \<Longrightarrow> fst (interleaving acts (cfg, l)) = cfg \<and> bounds cfg (snd (interleaving acts (cfg, l)))"
  unfolding interleaving_def
proof (induction acts arbitrary: l)
  case Nil
  then show ?case by simp
next
  case (Cons a acts)
  from Cons.prems have a: "keepsConfig a" and r: "list_all keepsConfig acts" by simp_all
  obtain l' where l': "act a (cfg, l) = (cfg, l')" "bounds cfg l'"
    using bounds_act[OF a Cons.prems(2)] by (cases "act a (cfg, l)") auto
  show ?case using Cons.IH[OF r l'(2)] l'(1) by simp
qed

lemma nonNegative_initialLimiter:
  "capacitiesNonNegative cfg \<Longrightarrow> nonNegative (initialLimiter cfg now1 now2)"
  by (simp add: nonNegative_def capacitiesNonNegative_def initialLimiter_def)

lemma nonNegative_takeTokens: "nonNegative (takeTokens l)"
  by (simp add: nonNegative_def takeTokens_refs)

lemma nonNegative_fire:
  "capacitiesNonNegative cfg \<Longrightarrow> nonNegative l \<Longrightarrow> nonNegative (fire cfg t l)"
  by (cases t)
    (simp_all add: nonNegative_def capacitiesNonNegative_def updateCountdowns_def
      perSecondInterval_def perMinuteInterval_def)

lemma nonNegative_act:
  "capacitiesNonNegative cfg \<Longrightarrow> keepsCapacitiesNonNegative cfg a \<Longrightarrow> nonNegative l
   \<Longrightarrow> capacitiesNonNegative (fst (act a (cfg, l))) \<and> nonNegative (snd (act a (cfg, l)))
       \<and> env_RATE_LIMIT_PER_SECOND (fst (act a (cfg, l))) = env_RATE_LIMIT_PER_SECOND cfg
       \<and> env_RATE_LIMIT_PER_MINUTE (fst (act a (cfg, l))) = env_RATE_LIMIT_PER_MINUTE cfg"
  by (cases a) (simp_all add: nonNegative_takeTokens nonNegative_fire)

lemma keepsCapacitiesNonNegative_env:
  "env_RATE_LIMIT_PER_SECOND cfg' = env_RATE_LIMIT_PER_SECOND cfg
   \<Longrightarrow> env_RATE_LIMIT_PER_MINUTE cfg' = env_RATE_LIMIT_PER_MINUTE cfg
   \<Longrightarrow> keepsCapacitiesNonNegative cfg' a = keepsCapacitiesNonNegative cfg a"
  by (cases a)
    (simp_all add: capacitiesNonNegative_def adjustedMaxTokensPerSecond_def
      adjustedMaxTokensPerMinute_def DATOCMS_CDA_RATE_LIMIT_PER_SECOND_def
      DATOCMS_CDA_RATE_LIMIT_PER_MINUTE_def bufferPercentage_def)

lemma nonNegative_interleaving:
  "capacitiesNonNegative cfg \<Longrightarrow> list_all (keepsCapacitiesNonNegative cfg) acts
   \<Longrightarrow> nonNegative l \<Longrightarrow> nonNegative (snd (interleaving acts (cfg, l)))"
  unfolding interleaving_def
proof (induction acts arbitrary: cfg l)
  case Nil
  then show ?case by simp
next
  case (Cons a acts)
  from Cons.prems have a: "keepsCapacitiesNonNegative cfg a"
    and r: "list_all (keepsCapacitiesNonNegative cfg) acts" by simp_all
  obtain cfg' l' where s: "act a (cfg, l) = (cfg', l')" by (cases "act a (cfg, l)")
  from nonNegative_act[OF Cons.prems(1) a Cons.prems(3)] s
  have c: "capacitiesNonNegative cfg'" "nonNegative l'"
    "env_RATE_LIMIT_PER_SECOND cfg' = env_RATE_LIMIT_PER_SECOND cfg"
    "env_RATE_LIMIT_PER_MINUTE cfg' = env_RATE_LIMIT_PER_MINUTE cfg" by simp_all
  have "list_all (keepsCapacitiesNonNegative cfg') acts"
    using r keepsCapacitiesNonNegative_env[OF c(3,4)] by (simp add: list_all_iff)
  from Cons.IH[OF c(1) this c(2)] show ?case using s by simp
qed

lemma bounds_consumeToken:
  "bounds cfg l \<Longrightarrow> consumeToken cfg sched l = Some (l', sched') \<Longrightarrow> bounds cfg l'"
  unfolding consumeToken_Some_iff by (auto simp: bounds_takeTokens bounds_afterWaits)

lemma bounds_forOf:
  "bounds cfg (provider w)
   \<Longrightarrow> bounds cfg (provider (snd (forOf cfg N fns results completed w)))"
proof (induction fns arbitrary: results completed w)
  case Nil
  then show ?case by simp
next
  case (Cons f fns)
  show ?case
  proof (cases "consumeToken cfg (remaining w) (provider w)")
    case None
    then show ?thesis using Cons.prems by (simp add: bounds_afterWaits)
  next
    case (Some r)
    obtain l' sched' where r: "r = (l', sched')" by (cases r)
    have b: "bounds cfg (runTimers cfg (elapsed f) l')"
      using bounds_consumeToken[OF Cons.prems] Some r by (simp add: bounds_runTimers)
    show ?thesis
    proof (cases "settles f")
      case (Fulfilled v)
      then show ?thesis using Some r b by (simp add: Let_def Cons.IH)
    next
      case (Rejected e)
      then show ?thesis using Some r b by (simp add: Let_def)
    next
      case Pending
      then show ?thesis using Some r b by (simp add: Let_def)
    qed
  qed
qed

lemma bounds_initialLimiter:
  "0 \<le> adjustedMaxTokensPerSecond cfg \<Longrightarrow> 0 \<le> adjustedMaxTokensPerMinute cfg
   \<Longrightarrow> bounds cfg (initialLimiter cfg now1 now2)"
  by (simp add: bounds_def initialLimiter_def)

text \<open>
  C3. While the provider keeps its \<^verbatim>\<open>bufferPercentage\<close> and the two capacities are not
  negative, each counter stays between zero and its capacity: every stretch of code
  that writes a counter (a caller of \<^verbatim>\<open>consumeToken\<close> passing the loop test and taking
  its tokens, a per-second refill, a per-minute refill, a countdown update) keeps the
  bounds, so any interleaving of them does; the first render establishes them; and a
  whole run of \<^verbatim>\<open>executePromisesWithRateLimit\<close> leaves them in force. Across renders
  that change \<^verbatim>\<open>bufferPercentage\<close> the counters still never go below zero, from the
  first render on, as long as no render brings a negative capacity.
\<close>

theorem counters_within_bounds:
  "(list_all keepsConfig acts \<and> bounds cfg l \<longrightarrow>
      fst (interleaving acts (cfg, l)) = cfg
      \<and> bounds cfg (snd (interleaving acts (cfg, l))))
   \<and> (list_all keepsConfig acts
        \<and> 0 \<le> adjustedMaxTokensPerSecond cfg \<and> 0 \<le> adjustedMaxTokensPerMinute cfg \<longrightarrow>
        bounds cfg (snd (interleaving acts (cfg, initialLimiter cfg now1 now2))))
   \<and> (capacitiesNonNegative cfg \<and> list_all (keepsCapacitiesNonNegative cfg) acts
        \<and> nonNegative l \<longrightarrow>
        nonNegative (snd (interleaving acts (cfg, l))))
   \<and> (capacitiesNonNegative cfg \<and> list_all (keepsCapacitiesNonNegative cfg) acts \<longrightarrow>
        nonNegative (snd (interleaving acts (cfg, initialLimiter cfg now1 now2))))
   \<and> (bounds cfg (provider w) \<longrightarrow>
        bounds cfg (provider (snd (executePromisesWithRateLimit cfg promiseFns w))))"
  by (simp add: bounds_interleaving bounds_initialLimiter bounds_forOf
      nonNegative_interleaving nonNegative_initialLimiter executePromisesWithRateLimit_def)

text \<open>
  The default configuration, two callers and both refills; a render with a buffer of
  50 percent between two callers; then a run of one task from the first render.
\<close>

theorem counters_within_bounds_witness:
  "0 \<le> adjustedMaxTokensPerSecond defaults \<and> 0 \<le> adjustedMaxTokensPerMinute defaults
   \<and> bounds defaults (initialLimiter defaults 0 0)
   \<and> bounds defaults
       (snd (interleaving
          [ConsumeAttempt, Fire (PerMinuteInterval 60000), ConsumeAttempt,
           Fire (PerSecondInterval 61000)]
          (defaults, initialLimiter defaults 0 0)))
   \<and> nonNegative
       (snd (interleaving
          [ConsumeAttempt, Rerender (Some 50), ConsumeAttempt, Fire (PerSecondInterval 1000)]
          (defaults, initialLimiter defaults 0 0)))
   \<and> bounds defaults
       (provider (snd (executePromisesWithRateLimit defaults
          [PromiseFn [CountdownInterval 100] (Fulfilled (7::nat))]
          \<lparr> provider = initialLimiter defaults 0 0, remaining = [], trace = [] \<rparr>)))"
proof -
  let ?w = "\<lparr> provider = initialLimiter defaults 0 0, remaining = [],
      trace = ([] :: nat obs list) \<rparr>"
  let ?fns = "[PromiseFn [CountdownInterval 100] (Fulfilled (7::nat))]"
  have h: "0 \<le> adjustedMaxTokensPerSecond defaults \<and> 0 \<le> adjustedMaxTokensPerMinute defaults"
    by (simp add: defaults_capacity)
  have b: "bounds defaults (initialLimiter defaults 0 0)"
    using counters_within_bounds[where cfg = defaults and l = "initialLimiter defaults 0 0"
        and acts = "[]" and ?now1.0 = 0 and ?now2.0 = 0 and w = ?w and promiseFns = ?fns] h
    by (simp add: interleaving_def)
  have n: "nonNegative (initialLimiter defaults 0 0)"
    using b by (simp add: bounds_def nonNegative_def)
  have c: "capacitiesNonNegative defaults
      \<and> list_all (keepsCapacitiesNonNegative defaults)
          [ConsumeAttempt, Rerender (Some 50), ConsumeAttempt, Fire (PerSecondInterval 1000)]"
    by (simp add: capacitiesNonNegative_def defaults_capacity)
      (simp add: defaults_def adjustedMaxTokensPerSecond_def adjustedMaxTokensPerMinute_def
        DATOCMS_CDA_RATE_LIMIT_PER_SECOND_def DATOCMS_CDA_RATE_LIMIT_PER_MINUTE_def
        bufferPercentage_def)
  have r: "nonNegative
       (snd (interleaving
          [ConsumeAttempt, Rerender (Some 50), ConsumeAttempt, Fire (PerSecondInterval 1000)]
          (defaults, initialLimiter defaults 0 0)))"
    using counters_within_bounds[where cfg = defaults and l = "initialLimiter defaults 0 0"
        and acts = "[ConsumeAttempt, Rerender (Some 50), ConsumeAttempt,
          Fire (PerSecondInterval 1000)]"
        and ?now1.0 = 0 and ?now2.0 = 0 and w = ?w and promiseFns = ?fns] c n
    by blast
  have p: "provider ?w = initialLimiter defaults 0 0"
    by simp
  from counters_within_bounds[where cfg = defaults and l = "initialLimiter defaults 0 0"
      and acts = "[ConsumeAttempt, Fire (PerMinuteInterval 60000), ConsumeAttempt,
        Fire (PerSecondInterval 61000)]"
      and ?now1.0 = 0 and ?now2.0 = 0 and w = ?w and promiseFns = ?fns] h b p r
  show ?thesis by simp
qed

text \<open>
  A buffer of 150 percent: both counters are negative from the first render, and stay
  so after a caller and a refill. A render with a buffer of 50 percent after the first
  render with the default of 10: the per-second counter holds 54 against a capacity
  of 30.
\<close>

theorem counters_within_bounds_counterexample:
  "tokensPerSecondRemainingRef
     (initialLimiter (defaults\<lparr> prop_bufferPercentage := Some 150 \<rparr>) 0 0) = - 30
   \<and> tokensPerMinuteRemainingRef
     (initialLimiter (defaults\<lparr> prop_bufferPercentage := Some 150 \<rparr>) 0 0) = - 500
   \<and> tokensPerSecondRemainingRef
       (snd (interleaving [ConsumeAttempt, Fire (PerSecondInterval 1000)]
          (defaults\<lparr> prop_bufferPercentage := Some 150 \<rparr>,
           initialLimiter (defaults\<lparr> prop_bufferPercentage := Some 150 \<rparr>) 0 0))) = - 30
   \<and> tokensPerSecondRemainingRef
       (snd (interleaving [Rerender (Some 50)] (defaults, initialLimiter defaults 0 0))) = 54
   \<and> adjustedMaxTokensPerSecond
       (fst (interleaving [Rerender (Some 50)] (defaults, initialLimiter defaults 0 0))) = 30"
  by (simp add: interleaving_def initialLimiter_def defaults_def blocked_def
      perSecondInterval_def adjustedMaxTokensPerSecond_def adjustedMaxTokensPerMinute_def
      DATOCMS_CDA_RATE_LIMIT_PER_SECOND_def DATOCMS_CDA_RATE_LIMIT_PER_MINUTE_def
      bufferPercentage_def)

subsection \<open>Refills\<close>

text \<open>
  C5. The per-minute refill sets the minute counter and the second counter to their
  capacities in one callback (the refs and the values shown), and leaves
  \<^verbatim>\<open>nextPerSecondRefill\<close>, the schedule of the per-second window, as it was.
\<close>

theorem perMinuteInterval_resets_both:
  "tokensPerMinuteRemainingRef (perMinuteInterval cfg now l) = adjustedMaxTokensPerMinute cfg
   \<and> tokensPerSecondRemainingRef (perMinuteInterval cfg now l) = adjustedMaxTokensPerSecond cfg
   \<and> tokensPerMinuteRemaining (perMinuteInterval cfg now l) = adjustedMaxTokensPerMinute cfg
   \<and> tokensPerSecondRemaining (perMinuteInterval cfg now l) = adjustedMaxTokensPerSecond cfg
   \<and> nextPerSecondRefill (perMinuteInterval cfg now l) = nextPerSecondRefill l
   \<and> fire cfg (PerMinuteInterval now) l = perMinuteInterval cfg now l"
  by (simp add: perMinuteInterval_def)

text \<open>
  C8. A refill sets its counter to the capacity whatever the counter held, so
  nothing is banked; and it sets the next refill time of its window to the time the
  callback reads plus the length of the window (1000 ms, 60000 ms). That is one window
  after the refill time that was scheduled before exactly when the callback runs at
  that scheduled time.
\<close>

theorem refill_restarts_window_from_now:
  "tokensPerSecondRemainingRef (perSecondInterval cfg now l) = adjustedMaxTokensPerSecond cfg
   \<and> nextPerSecondRefill (perSecondInterval cfg now l) = now + 1000
   \<and> tokensPerMinuteRemainingRef (perMinuteInterval cfg now l) = adjustedMaxTokensPerMinute cfg
   \<and> nextPerMinuteRefill (perMinuteInterval cfg now l) = now + 60000
   \<and> (nextPerSecondRefill (perSecondInterval cfg now l) = nextPerSecondRefill l + 1000
        \<longleftrightarrow> now = nextPerSecondRefill l)
   \<and> (nextPerMinuteRefill (perMinuteInterval cfg now l) = nextPerMinuteRefill l + 60000
        \<longleftrightarrow> now = nextPerMinuteRefill l)"
  by (simp add: perSecondInterval_def perMinuteInterval_def)

text \<open>
  The provider renders at time 0, so the first per-second refill is announced for 1000.
  The interval is created by the effect, after the render; when its callback runs at
  1005 the next refill is announced for 2005, not for 2000.
\<close>

theorem refill_counterexample:
  "nextPerSecondRefill (initialLimiter defaults 0 0) + 1000 = 2000
   \<and> nextPerSecondRefill (perSecondInterval defaults 1005 (initialLimiter defaults 0 0)) = 2005"
  by (simp add: initialLimiter_def perSecondInterval_def)

subsection \<open>The snapshot\<close>

text \<open>
  C9. \<^verbatim>\<open>updateCountdowns\<close> writes the two countdowns and nothing else: the
  counters and the refill times keep their values, and the two remaining counts read
  afterwards are those shown before. Each countdown is the time to the next refill in
  seconds, floored at zero. Repeating the update with the same clock value changes
  nothing, and what is read after an update does not depend on the updates before it;
  the countdowns read are those of the clock value of the last update.
\<close>

theorem snapshot_same_instant:
  "tokensPerSecondRemainingRef (updateCountdowns now l) = tokensPerSecondRemainingRef l
   \<and> tokensPerMinuteRemainingRef (updateCountdowns now l) = tokensPerMinuteRemainingRef l
   \<and> nextPerSecondRefill (updateCountdowns now l) = nextPerSecondRefill l
   \<and> nextPerMinuteRefill (updateCountdowns now l) = nextPerMinuteRefill l
   \<and> tokensPerSecondRemaining (snapshot (updateCountdowns now l)) = tokensPerSecondRemaining l
   \<and> tokensPerMinuteRemaining (snapshot (updateCountdowns now l)) = tokensPerMinuteRemaining l
   \<and> perSecondCountdown (snapshot (updateCountdowns now l)) =
       max (real_of_int (nextPerSecondRefill l - now) / 1000) 0
   \<and> perMinuteCountdown (snapshot (updateCountdowns now l)) =
       max (real_of_int (nextPerMinuteRefill l - now) / 1000) 0
   \<and> 0 \<le> perSecondCountdown (snapshot (updateCountdowns now l))
   \<and> 0 \<le> perMinuteCountdown (snapshot (updateCountdowns now l))
   \<and> updateCountdowns now (updateCountdowns now l) = updateCountdowns now l
   \<and> snapshot (updateCountdowns now (updateCountdowns now l)) =
       snapshot (updateCountdowns now l)
   \<and> snapshot (updateCountdowns now2 (updateCountdowns now1 l)) =
       snapshot (updateCountdowns now2 l)"
  by (simp add: updateCountdowns_def snapshot_def)

text \<open>
  Two readings 100 ms apart, with no token taken and no refill between them: the
  per-second countdown is 1 s at the first and 0.9 s at the second.
\<close>

theorem snapshot_counterexample:
  "perSecondCountdown (snapshot (updateCountdowns 0 (initialLimiter defaults 0 0))) = 1
   \<and> perSecondCountdown
        (snapshot (updateCountdowns 100 (updateCountdowns 0 (initialLimiter defaults 0 0))))
      = 9 / 10"
  by (simp add: initialLimiter_def updateCountdowns_def snapshot_def)

subsection \<open>Construction\<close>















subsection \<open>useRateLimit\<close>

text \<open>
  C10. \<^verbatim>\<open>useRateLimit\<close> never throws. Under a provider it returns the value of the
  provider. With no provider it returns the default value of the context, whose
  \<^verbatim>\<open>consumeToken\<close> resolves at once and changes nothing, and whose
  \<^verbatim>\<open>executePromisesWithRateLimit\<close> resolves to the empty array for every queue and calls
  no producer: the world it returns is the world it was given.
\<close>

theorem useRateLimit_never_throws:
  "useRateLimit cfg nearest \<noteq> Inl e
   \<and> useRateLimit cfg (Some v) = Inr v
   \<and> useRateLimit cfg (Some (providerValue cfg l)) = Inr (providerValue cfg l)
   \<and> useRateLimit cfg None = Inr (RateLimitContext cfg)
   \<and> consumeToken_prop (RateLimitContext cfg) sched l = Some (l, sched)
   \<and> executePromisesWithRateLimit_prop (RateLimitContext cfg) promiseFns w = (Fulfilled [], w)"
  by (simp add: useRateLimit_def useContext_def RateLimitContext_def split: option.splits)

subsection \<open>Runs of executePromisesWithRateLimit\<close>

text \<open>
  With positive capacities, a caller returns within the first \<open>k\<close> waits when the
  per-minute interval fires in one of them.
\<close>

lemma consume_within:
  assumes caps: "0 < adjustedMaxTokensPerSecond cfg" "0 < adjustedMaxTokensPerMinute cfg"
  shows "list_ex replenishes (take k sched) \<Longrightarrow>
     \<exists>m l'. m \<le> k \<and> m \<le> length sched \<and> consumeToken cfg sched l = Some (l', drop m sched)"
proof (induction sched arbitrary: l k)
  case Nil
  then show ?case by simp
next
  case (Cons t sched)
  show ?case
  proof (cases "blocked l")
    case False
    then have "consumeToken cfg (t # sched) l = Some (takeTokens l, drop 0 (t # sched))" by simp
    then show ?thesis by blast
  next
    case True
    from Cons.prems obtain k' where k: "k = Suc k'" by (cases k) auto
    show ?thesis
    proof (cases "replenishes t")
      case True
      then have "\<not> blocked (runTimers cfg t l)"
        using caps by (simp add: replenishes_full full_not_blocked)
      then have "consumeToken cfg (t # sched) l = Some (takeTokens (runTimers cfg t l), drop 1 (t # sched))"
        using \<open>blocked l\<close> by (cases sched) simp_all
      moreover have "(1::nat) \<le> k" "(1::nat) \<le> length (t # sched)" using k by simp_all
      ultimately show ?thesis by blast
    next
      case False
      with Cons.prems k have "list_ex replenishes (take k' sched)" by simp
      from Cons.IH[OF this, of "runTimers cfg t l"]
      obtain m l' where m: "m \<le> k'" "m \<le> length sched"
        "consumeToken cfg sched (runTimers cfg t l) = Some (l', drop m sched)" by blast
      then have "consumeToken cfg (t # sched) l = Some (l', drop (Suc m) (t # sched))"
        using \<open>blocked l\<close> by simp
      moreover have "Suc m \<le> k" "Suc m \<le> length (t # sched)" using m k by simp_all
      ultimately show ?thesis by blast
    qed
  qed
qed

lemma refillsWithin_drop: "refillsWithin k sched \<Longrightarrow> refillsWithin k (drop m sched)"
proof (induction sched arbitrary: m)
  case Nil
  then show ?case by simp
next
  case (Cons t sched)
  then show ?case by (cases m) simp_all
qed

lemma refillsWithin_take:
  "refillsWithin k sched \<Longrightarrow> 0 < k \<Longrightarrow> k \<le> length sched \<Longrightarrow> list_ex replenishes (take k sched)"
  by (cases sched) auto

text \<open>
  A queue whose producers all fulfil, under a schedule that refills within every \<open>k\<close>
  waits and is long enough: the loop ends, with the outcomes in queue order.
\<close>

lemma forOf_fulfilled:
  assumes caps: "0 < adjustedMaxTokensPerSecond cfg" "0 < adjustedMaxTokensPerMinute cfg"
    and k: "0 < k"
  shows "map settles fns = map Fulfilled vs \<Longrightarrow> refillsWithin k (remaining w)
     \<Longrightarrow> k * length fns \<le> length (remaining w)
     \<Longrightarrow> \<exists>w'. forOf cfg N fns results completed w = (Fulfilled (results @ vs), w')
            \<and> trace w' = trace w @ sequentialTrace N completed (zip fns vs)
            \<and> (\<exists>m\<le>k * length fns. remaining w' = drop m (remaining w))"
proof (induction fns arbitrary: vs results completed w)
  case Nil
  then show ?case by simp
next
  case (Cons f fns)
  from Cons.prems(1) obtain v vs' where vs: "vs = v # vs'" "settles f = Fulfilled v"
    "map settles fns = map Fulfilled vs'" by (cases vs) auto
  have len: "k \<le> length (remaining w)" using Cons.prems(3) by simp
  have "list_ex replenishes (take k (remaining w))"
    using refillsWithin_take[OF Cons.prems(2) k len] .
  from consume_within[OF caps this, of "provider w"]
  obtain m l' where m: "m \<le> k" "m \<le> length (remaining w)"
    "consumeToken cfg (remaining w) (provider w) = Some (l', drop m (remaining w))" by blast
  define w2 where "w2 = w\<lparr> provider := runTimers cfg (elapsed f) l',
       remaining := drop m (remaining w),
       trace := trace w @ [Acquired, Called f, Pushed v,
          Progress (completed + 1) (int N - int (completed + 1))] \<rparr>"
  have step: "forOf cfg N (f # fns) results completed w =
       forOf cfg N fns (results @ [v]) (completed + 1) w2"
    using m(3) vs(2) by (simp add: w2_def Let_def)
  have r2: "refillsWithin k (remaining w2)"
    using Cons.prems(2) by (simp add: w2_def refillsWithin_drop)
  have l2: "k * length fns \<le> length (remaining w2)"
    using Cons.prems(3) m(1) by (simp add: w2_def)
  from Cons.IH[OF vs(3) r2 l2, of "results @ [v]" "completed + 1"]
  obtain w' m' where w': "forOf cfg N fns (results @ [v]) (completed + 1) w2 = (Fulfilled ((results @ [v]) @ vs'), w')"
    "trace w' = trace w2 @ sequentialTrace N (completed + 1) (zip fns vs')"
    "m' \<le> k * length fns" "remaining w' = drop m' (remaining w2)" by blast
  have "remaining w' = drop (m' + m) (remaining w)" using w'(4) by (simp add: w2_def)
  moreover have "m' + m \<le> k * length (f # fns)" using w'(3) m(1) by simp
  ultimately have "\<exists>n\<le>k * length (f # fns). remaining w' = drop n (remaining w)" by blast
  moreover have "forOf cfg N (f # fns) results completed w = (Fulfilled (results @ vs), w')"
    using step w'(1) vs(1) by simp
  moreover have "trace w' = trace w @ sequentialTrace N completed (zip (f # fns) vs)"
    using w'(2) vs(1) by (simp add: w2_def)
  ultimately show ?case by blast
qed

text \<open>The loop over a queue in two parts.\<close>

lemma forOf_append:
  "forOf cfg N (xs @ ys) results completed w =
    (case forOf cfg N xs results completed w of
       (Fulfilled results', w') \<Rightarrow> forOf cfg N ys results' (completed + length xs) w'
     | (Rejected e, w') \<Rightarrow> (Rejected e, w')
     | (Pending, w') \<Rightarrow> (Pending, w'))"
proof (induction xs arbitrary: results completed w)
  case Nil
  then show ?case by simp
next
  case (Cons f xs)
  show ?case
    by (simp add: Cons.IH Let_def split: option.splits prod.splits promise.splits)
qed

text \<open>
  The same queue under any schedule: the loop ends as above, or it is still waiting for
  a token after some of the tasks.
\<close>

lemma forOf_fulfilled_any:
  "map settles fns = map Fulfilled vs \<Longrightarrow>
     (\<exists>w'. forOf cfg N fns results completed w = (Fulfilled (results @ vs), w')
          \<and> trace w' = trace w @ sequentialTrace N completed (zip fns vs))
     \<or> (\<exists>w' m. m < length fns \<and> forOf cfg N fns results completed w = (Pending, w')
          \<and> trace w' = trace w @ sequentialTrace N completed (take m (zip fns vs)))"
proof (induction fns arbitrary: vs results completed w)
  case Nil
  then show ?case by simp
next
  case (Cons f fns)
  from Cons.prems obtain v vs' where vs: "vs = v # vs'" "settles f = Fulfilled v"
    "map settles fns = map Fulfilled vs'" by (cases vs) auto
  show ?case
  proof (cases "consumeToken cfg (remaining w) (provider w)")
    case None
    define w0 where "w0 = w\<lparr> provider :=
        afterWaits cfg (remaining w) (length (remaining w)) (provider w), remaining := [] \<rparr>"
    have "forOf cfg N (f # fns) results completed w = (Pending, w0)"
      using None by (simp add: w0_def)
    moreover have "trace w0 = trace w @ sequentialTrace N completed (take 0 (zip (f # fns) vs))"
      by (simp add: w0_def)
    ultimately show ?thesis by (intro disjI2 exI[of _ w0] exI[of _ 0]) simp
  next
    case (Some r)
    obtain l' sched' where r: "r = (l', sched')" by (cases r)
    define w2 where "w2 = w\<lparr> provider := runTimers cfg (elapsed f) l',
       remaining := sched',
       trace := trace w @ [Acquired, Called f, Pushed v,
          Progress (completed + 1) (int N - int (completed + 1))] \<rparr>"
    have step: "forOf cfg N (f # fns) results completed w =
       forOf cfg N fns (results @ [v]) (completed + 1) w2"
      using Some r vs(2) by (simp add: w2_def Let_def)
    from Cons.IH[OF vs(3), of "results @ [v]" "completed + 1" w2]
    show ?thesis
    proof (elim disjE exE conjE)
      fix w'
      assume "forOf cfg N fns (results @ [v]) (completed + 1) w2 = (Fulfilled ((results @ [v]) @ vs'), w')"
        "trace w' = trace w2 @ sequentialTrace N (completed + 1) (zip fns vs')"
      then show ?thesis using step vs(1) by (simp add: w2_def)
    next
      fix w' m
      assume a: "m < length fns" "forOf cfg N fns (results @ [v]) (completed + 1) w2 = (Pending, w')"
        "trace w' = trace w2 @ sequentialTrace N (completed + 1) (take m (zip fns vs'))"
      have "Suc m < length (f # fns)" using a(1) by simp
      moreover have "forOf cfg N (f # fns) results completed w = (Pending, w')"
        using step a(2) by simp
      moreover have "trace w' = trace w @ sequentialTrace N completed (take (Suc m) (zip (f # fns) vs))"
        using a(3) vs(1) by (simp add: w2_def)
      ultimately show ?thesis by blast
    qed
  qed
qed

lemma calledOf_append: "calledOf (xs @ ys) = calledOf xs @ calledOf ys"
  by (induction xs rule: calledOf.induct) simp_all

lemma calledOf_sequentialTrace:
  "length vs = length fns \<Longrightarrow> calledOf (sequentialTrace N c (zip fns vs)) = fns"
  by (induction fns arbitrary: vs c) (auto simp: length_Suc_conv)

lemma calledOf_sequentialTrace_take:
  "length vs = length fns \<Longrightarrow> calledOf (sequentialTrace N c (take m (zip fns vs))) = take m fns"
proof (induction fns arbitrary: vs c m)
  case Nil
  then show ?case by simp
next
  case (Cons f fns)
  then obtain v vs' where "vs = v # vs'" "length vs' = length fns" by (cases vs) auto
  then show ?case using Cons.IH by (cases m) simp_all
qed

lemma progress_sequentialTrace:
  "length vs = length fns \<Longrightarrow>
     filter isProgress (sequentialTrace N c (zip fns vs)) =
     map (\<lambda>i. Progress (Suc i) (int N - int (Suc i))) [c..<c + length fns]"
proof (induction fns arbitrary: vs c)
  case Nil
  then show ?case by simp
next
  case (Cons f fns)
  then obtain v vs' where vs: "vs = v # vs'" "length vs' = length fns" by (cases vs) auto
  have "[c..<c + Suc n] = c # [Suc c..<Suc c + n]" for n
    by (subst upt_rec) simp
  then show ?case using vs Cons.IH[OF vs(2), of "Suc c"] by simp
qed

lemma others_sequentialTrace:
  "length vs = length fns \<Longrightarrow>
     filter (\<lambda>e. \<not> isProgress e) (sequentialTrace N c (zip fns vs)) =
     concat (map (\<lambda>(f, v). [Acquired, Called f, Pushed v]) (zip fns vs))"
  by (induction fns arbitrary: vs c) (auto simp: length_Suc_conv)

text \<open>A queue whose first producer that does not fulfil rejects.\<close>

lemma forOf_rejecting:
  assumes pre: "map settles pre = map Fulfilled vs" and f: "settles f = Rejected e"
  shows "(fst (forOf cfg N (pre @ f # post) results c w) = Rejected e
          \<and> trace (snd (forOf cfg N (pre @ f # post) results c w)) =
              trace w @ sequentialTrace N c (zip pre vs) @ [Acquired, Called f])
       \<or> (fst (forOf cfg N (pre @ f # post) results c w) = Pending
          \<and> (\<exists>m\<le>length pre. trace (snd (forOf cfg N (pre @ f # post) results c w)) =
              trace w @ sequentialTrace N c (take m (zip pre vs))))"
proof -
  have len: "length vs = length pre" using pre by (metis length_map)
  from forOf_fulfilled_any[OF pre, of cfg N results c w]
  show ?thesis
  proof (elim disjE exE conjE)
    fix w1
    assume a: "forOf cfg N pre results c w = (Fulfilled (results @ vs), w1)"
      "trace w1 = trace w @ sequentialTrace N c (zip pre vs)"
    show ?thesis
    proof (cases "consumeToken cfg (remaining w1) (provider w1)")
      case None
      define w0 where "w0 = w1\<lparr> provider :=
          afterWaits cfg (remaining w1) (length (remaining w1)) (provider w1),
          remaining := [] \<rparr>"
      have "forOf cfg N (pre @ f # post) results c w = (Pending, w0)"
        using None a(1) by (simp add: forOf_append w0_def)
      moreover have "trace w0 = trace w @ sequentialTrace N c (take (length pre) (zip pre vs))"
        using a(2) len by (simp add: w0_def)
      ultimately show ?thesis by (intro disjI2) auto
    next
      case (Some r)
      obtain l' sched' where r: "r = (l', sched')" by (cases r)
      have "forOf cfg N (pre @ f # post) results c w =
         (Rejected e, w1\<lparr> provider := runTimers cfg (elapsed f) l', remaining := sched',
             trace := trace w1 @ [Acquired, Called f] \<rparr>)"
        using a(1) Some r f by (simp add: forOf_append Let_def)
      then show ?thesis using a(2) by simp
    qed
  next
    fix w' m
    assume a: "m < length pre" "forOf cfg N pre results c w = (Pending, w')"
      "trace w' = trace w @ sequentialTrace N c (take m (zip pre vs))"
    have "forOf cfg N (pre @ f # post) results c w = (Pending, w')"
      using a(2) by (simp add: forOf_append)
    moreover have "m \<le> length pre" using a(1) by simp
    ultimately show ?thesis using a(3) by (intro disjI2) (simp, blast)
  qed
qed

lemma forOf_rejecting_fair:
  assumes caps: "0 < adjustedMaxTokensPerSecond cfg" "0 < adjustedMaxTokensPerMinute cfg"
    and k: "0 < k"
    and pre: "map settles pre = map Fulfilled vs" and f: "settles f = Rejected e"
    and fair: "refillsWithin k (remaining w)"
    and len: "k * (length pre + 1) \<le> length (remaining w)"
  shows "fst (forOf cfg N (pre @ f # post) results c w) = Rejected e"
proof -
  have "k * length pre \<le> length (remaining w)" using len by simp
  from forOf_fulfilled[OF caps k pre fair this, of N results c]
  obtain w1 m where w1: "forOf cfg N pre results c w = (Fulfilled (results @ vs), w1)"
    "m \<le> k * length pre" "remaining w1 = drop m (remaining w)" by blast
  have "refillsWithin k (remaining w1)" using fair w1(3) by (simp add: refillsWithin_drop)
  moreover have "k \<le> length (remaining w1)" using w1(2,3) len by simp
  ultimately have "list_ex replenishes (take k (remaining w1))"
    using k by (simp add: refillsWithin_take)
  from consume_within[OF caps this, of "provider w1"]
  obtain r where "consumeToken cfg (remaining w1) (provider w1) = Some r" by blast
  then show ?thesis
    using w1(1) f by (cases r) (simp add: forOf_append Let_def)
qed

text \<open>
  Any queue under any schedule: the trace of a run is the sequential trace of the tasks
  it has completed, followed at most by the token and the call of the task it stopped
  at.
\<close>

lemma forOf_shape:
  "\<exists>n vs tail. n \<le> length fns \<and> length vs = n
     \<and> map settles (take n fns) = map Fulfilled vs
     \<and> trace (snd (forOf cfg N fns results c w)) =
         trace w @ sequentialTrace N c (zip (take n fns) vs) @ tail
     \<and> (tail = [] \<or> (n < length fns \<and> tail = [Acquired, Called (fns ! n)]))
     \<and> (\<forall>r. fst (forOf cfg N fns results c w) = Fulfilled r \<longrightarrow>
           n = length fns \<and> r = results @ vs \<and> tail = [])
     \<and> (\<forall>e. fst (forOf cfg N fns results c w) = Rejected e \<longrightarrow>
           n < length fns \<and> settles (fns ! n) = Rejected e \<and> tail \<noteq> [])"
  (is "\<exists>n vs tail. ?P fns results c w n vs tail")
proof (induction fns arbitrary: results c w)
  case Nil
  have "?P [] results c w 0 [] []" by simp
  then show ?case by blast
next
  case (Cons f fns)
  show ?case
  proof (cases "consumeToken cfg (remaining w) (provider w)")
    case None
    then have "?P (f # fns) results c w 0 [] []" by simp
    then show ?thesis by blast
  next
    case (Some r)
    obtain l' sched' where r: "r = (l', sched')" by (cases r)
    show ?thesis
    proof (cases "settles f")
      case Pending
      then have "?P (f # fns) results c w 0 [] [Acquired, Called f]"
        using Some r by (simp add: Let_def)
      then show ?thesis by blast
    next
      case (Rejected e)
      then have "?P (f # fns) results c w 0 [] [Acquired, Called f]"
        using Some r by (simp add: Let_def)
      then show ?thesis by blast
    next
      case (Fulfilled v)
      define w2 where "w2 = w\<lparr> provider := runTimers cfg (elapsed f) l',
         remaining := sched',
         trace := trace w @ [Acquired, Called f, Pushed v,
            Progress (c + 1) (int N - int (c + 1))] \<rparr>"
      have step: "forOf cfg N (f # fns) results c w = forOf cfg N fns (results @ [v]) (c + 1) w2"
        using Some r Fulfilled by (simp add: w2_def Let_def)
      from Cons.IH[of "results @ [v]" "c + 1" w2]
      obtain n vs tail where IH: "?P fns (results @ [v]) (c + 1) w2 n vs tail" by blast
      have "?P (f # fns) results c w (Suc n) (v # vs) tail"
        unfolding step using IH Fulfilled by (simp add: w2_def)
      then show ?thesis by blast
    qed
  qed
qed

lemma forOf_called_prefix:
  "\<exists>m\<le>length fns. calledOf (trace (snd (forOf cfg N fns results c w))) =
      calledOf (trace w) @ take m fns"
proof -
  from forOf_shape[of fns cfg N results c w]
  obtain n vs tail where s: "n \<le> length fns" "length vs = n"
    "trace (snd (forOf cfg N fns results c w)) =
         trace w @ sequentialTrace N c (zip (take n fns) vs) @ tail"
    "tail = [] \<or> (n < length fns \<and> tail = [Acquired, Called (fns ! n)])"
    by blast
  have len: "length vs = length (take n fns)" using s(1,2) by simp
  have c: "calledOf (trace (snd (forOf cfg N fns results c w))) =
      calledOf (trace w) @ take n fns @ calledOf tail"
    using s(3) calledOf_sequentialTrace[OF len, of N c] by (simp add: calledOf_append)
  from s(4) show ?thesis
  proof
    assume "tail = []"
    then show ?thesis using c s(1) by auto
  next
    assume t: "n < length fns \<and> tail = [Acquired, Called (fns ! n)]"
    then have "take n fns @ calledOf tail = take (Suc n) fns"
      by (simp add: take_Suc_conv_app_nth)
    moreover have "Suc n \<le> length fns" using t by simp
    ultimately show ?thesis using c by metis
  qed
qed


lemma forOf_one_at_a_time:
  "\<exists>n vs tail. n \<le> length fns \<and> length vs = n
     \<and> filter (\<lambda>e. \<not> isProgress e) (trace (snd (forOf cfg N fns [] 0 w))) =
         filter (\<lambda>e. \<not> isProgress e) (trace w)
         @ concat (map (\<lambda>(f, v). [Acquired, Called f, Pushed v]) (zip (take n fns) vs))
         @ tail
     \<and> (tail = [] \<or> (n < length fns \<and> tail = [Acquired, Called (fns ! n)]))"
proof -
  from forOf_shape[of fns cfg N "[]" 0 w]
  obtain n vs tail where s: "n \<le> length fns" "length vs = n"
    "trace (snd (forOf cfg N fns [] 0 w)) =
         trace w @ sequentialTrace N 0 (zip (take n fns) vs) @ tail"
    "tail = [] \<or> (n < length fns \<and> tail = [Acquired, Called (fns ! n)])"
    by blast
  have len: "length vs = length (take n fns)" using s(1,2) by simp
  have "filter (\<lambda>e. \<not> isProgress e) tail = tail" using s(4) by auto
  then have "filter (\<lambda>e. \<not> isProgress e) (trace (snd (forOf cfg N fns [] 0 w))) =
         filter (\<lambda>e. \<not> isProgress e) (trace w)
         @ concat (map (\<lambda>(f, v). [Acquired, Called f, Pushed v]) (zip (take n fns) vs))
         @ tail"
    using s(3) others_sequentialTrace[OF len, of N 0] by simp
  then show ?thesis using s(1,2,4) by blast
qed

text \<open>
  C1. The empty queue resolves at once to the empty array: no wait, no producer
  called, no progress callback. For every queue and every schedule the producers are
  called in queue order and one at a time: those called are a prefix of the queue, and
  between the call of one producer and the call of the next there is the push of the
  outcome of the first. A run that resolves returns one outcome for each producer of
  the queue, in queue order, so a queue with a producer whose promise does not fulfil
  never resolves. A queue of \<open>N\<close> producers that all fulfil never rejects (the progress
  callback returning normally), and it resolves to the \<open>N\<close> outcomes whenever the
  capacities are positive and the timers refill within every \<open>k\<close> waits of a schedule
  of at least \<open>k * N\<close> waits.
\<close>

theorem executePromisesWithRateLimit_in_order:
  "executePromisesWithRateLimit cfg [] w = (Fulfilled [], w)
   \<and> (\<exists>m\<le>length promiseFns.
         calledOf (trace (snd (executePromisesWithRateLimit cfg promiseFns w))) =
           calledOf (trace w) @ take m promiseFns)
   \<and> (\<exists>n outcomes tail. n \<le> length promiseFns \<and> length outcomes = n
        \<and> filter (\<lambda>e. \<not> isProgress e)
            (trace (snd (executePromisesWithRateLimit cfg promiseFns w))) =
            filter (\<lambda>e. \<not> isProgress e) (trace w)
            @ concat (map (\<lambda>(f, v). [Acquired, Called f, Pushed v])
                (zip (take n promiseFns) outcomes))
            @ tail
        \<and> (tail = [] \<or> (n < length promiseFns \<and> tail = [Acquired, Called (promiseFns ! n)])))
   \<and> (\<forall>r. fst (executePromisesWithRateLimit cfg promiseFns w) = Fulfilled r \<longrightarrow>
         length r = length promiseFns \<and> map settles promiseFns = map Fulfilled r)
   \<and> (i < length promiseFns \<and> (\<forall>v. settles (promiseFns ! i) \<noteq> Fulfilled v) \<longrightarrow>
         (\<forall>r. fst (executePromisesWithRateLimit cfg promiseFns w) \<noteq> Fulfilled r))
   \<and> (map settles promiseFns = map Fulfilled vs \<longrightarrow>
        fst (executePromisesWithRateLimit cfg promiseFns w) = Fulfilled vs
        \<or> fst (executePromisesWithRateLimit cfg promiseFns w) = Pending)
   \<and> (0 < adjustedMaxTokensPerSecond cfg \<and> 0 < adjustedMaxTokensPerMinute cfg
        \<and> 0 < k \<and> refillsWithin k (remaining w) \<and> k * length promiseFns \<le> length (remaining w)
        \<and> map settles promiseFns = map Fulfilled vs \<longrightarrow>
        (\<exists>w'. executePromisesWithRateLimit cfg promiseFns w = (Fulfilled vs, w')
           \<and> length vs = length promiseFns
           \<and> calledOf (trace w') = calledOf (trace w) @ promiseFns
           \<and> filter (\<lambda>e. \<not> isProgress e) (trace w') =
               filter (\<lambda>e. \<not> isProgress e) (trace w)
               @ concat (map (\<lambda>(f, v). [Acquired, Called f, Pushed v]) (zip promiseFns vs))))"
proof -
  have resolved: "length r = length promiseFns \<and> map settles promiseFns = map Fulfilled r"
    if a: "fst (executePromisesWithRateLimit cfg promiseFns w) = Fulfilled r" for r
  proof -
    from forOf_shape[of promiseFns cfg "length promiseFns" "[]" 0 w] a
    obtain n vs' where "n = length promiseFns" "length vs' = n"
      "map settles (take n promiseFns) = map Fulfilled vs'" "r = [] @ vs'"
      unfolding executePromisesWithRateLimit_def by blast
    then show ?thesis by simp
  qed
  have unsettled: "fst (executePromisesWithRateLimit cfg promiseFns w) \<noteq> Fulfilled r"
    if a: "i < length promiseFns \<and> (\<forall>v. settles (promiseFns ! i) \<noteq> Fulfilled v)" for r
  proof
    assume "fst (executePromisesWithRateLimit cfg promiseFns w) = Fulfilled r"
    then have "map settles promiseFns = map Fulfilled r" using resolved by blast
    then have "settles (promiseFns ! i) = Fulfilled (r ! i)"
      using a by (metis length_map nth_map)
    then show False using a by blast
  qed
  have fair: "\<exists>w'. executePromisesWithRateLimit cfg promiseFns w = (Fulfilled vs, w')
           \<and> length vs = length promiseFns
           \<and> calledOf (trace w') = calledOf (trace w) @ promiseFns
           \<and> filter (\<lambda>e. \<not> isProgress e) (trace w') =
               filter (\<lambda>e. \<not> isProgress e) (trace w)
               @ concat (map (\<lambda>(f, v). [Acquired, Called f, Pushed v]) (zip promiseFns vs))"
    if a: "0 < adjustedMaxTokensPerSecond cfg \<and> 0 < adjustedMaxTokensPerMinute cfg
        \<and> 0 < k \<and> refillsWithin k (remaining w) \<and> k * length promiseFns \<le> length (remaining w)
        \<and> map settles promiseFns = map Fulfilled vs"
  proof -
    from a have len: "length vs = length promiseFns" by (metis length_map)
    from a forOf_fulfilled[of cfg k promiseFns vs w "length promiseFns" "[]" 0]
    obtain w' where w': "forOf cfg (length promiseFns) promiseFns [] 0 w = (Fulfilled vs, w')"
      "trace w' = trace w @ sequentialTrace (length promiseFns) 0 (zip promiseFns vs)"
      by auto
    have "calledOf (trace w') = calledOf (trace w) @ promiseFns"
      using w'(2) len by (simp add: calledOf_append calledOf_sequentialTrace)
    moreover have "filter (\<lambda>e. \<not> isProgress e) (trace w') =
               filter (\<lambda>e. \<not> isProgress e) (trace w)
               @ concat (map (\<lambda>(f, v). [Acquired, Called f, Pushed v]) (zip promiseFns vs))"
      using w'(2) len by (simp add: others_sequentialTrace)
    ultimately show ?thesis
      using w'(1) len by (simp add: executePromisesWithRateLimit_def)
  qed
  have never_rejects: "fst (executePromisesWithRateLimit cfg promiseFns w) = Fulfilled vs
        \<or> fst (executePromisesWithRateLimit cfg promiseFns w) = Pending"
    if a: "map settles promiseFns = map Fulfilled vs"
    using forOf_fulfilled_any[OF a, of cfg "length promiseFns" "[]" 0 w]
    by (auto simp: executePromisesWithRateLimit_def)
  have empty: "executePromisesWithRateLimit cfg [] w = (Fulfilled [], w)"
    by (simp add: executePromisesWithRateLimit_def)
  have prefix: "\<exists>m\<le>length promiseFns.
         calledOf (trace (snd (executePromisesWithRateLimit cfg promiseFns w))) =
           calledOf (trace w) @ take m promiseFns"
    unfolding executePromisesWithRateLimit_def by (rule forOf_called_prefix)
  have one: "\<exists>n outcomes tail. n \<le> length promiseFns \<and> length outcomes = n
        \<and> filter (\<lambda>e. \<not> isProgress e)
            (trace (snd (executePromisesWithRateLimit cfg promiseFns w))) =
            filter (\<lambda>e. \<not> isProgress e) (trace w)
            @ concat (map (\<lambda>(f, v). [Acquired, Called f, Pushed v])
                (zip (take n promiseFns) outcomes))
            @ tail
        \<and> (tail = [] \<or> (n < length promiseFns \<and> tail = [Acquired, Called (promiseFns ! n)]))"
    unfolding executePromisesWithRateLimit_def by (rule forOf_one_at_a_time)
  show ?thesis
    using empty prefix one resolved unsettled never_rejects fair by blast
qed

text \<open>
  Two tasks and one token left in the second window: the second task waits for the
  per-minute refill, and the run resolves to both outcomes in order.
\<close>

theorem executePromisesWithRateLimit_in_order_witness:
  "0 < adjustedMaxTokensPerSecond defaults \<and> 0 < adjustedMaxTokensPerMinute defaults
   \<and> fst (executePromisesWithRateLimit defaults
        [PromiseFn [] (Fulfilled (10::nat)), PromiseFn [CountdownInterval 60100] (Fulfilled 20)]
        \<lparr> provider = (initialLimiter defaults 0 0)\<lparr> tokensPerSecondRemainingRef := 1 \<rparr>,
          remaining = [[PerMinuteInterval 60000], [PerMinuteInterval 120000]],
          trace = [] \<rparr>) = Fulfilled [10, 20]
   \<and> calledOf (trace (snd (executePromisesWithRateLimit defaults
        [PromiseFn [] (Fulfilled (10::nat)), PromiseFn [CountdownInterval 60100] (Fulfilled 20)]
        \<lparr> provider = (initialLimiter defaults 0 0)\<lparr> tokensPerSecondRemainingRef := 1 \<rparr>,
          remaining = [[PerMinuteInterval 60000], [PerMinuteInterval 120000]],
          trace = [] \<rparr>))) =
       [PromiseFn [] (Fulfilled 10), PromiseFn [CountdownInterval 60100] (Fulfilled 20)]"
proof -
  let ?fns = "[PromiseFn [] (Fulfilled (10::nat)), PromiseFn [CountdownInterval 60100] (Fulfilled 20)]"
  let ?w = "\<lparr> provider = (initialLimiter defaults 0 0)\<lparr> tokensPerSecondRemainingRef := 1 \<rparr>,
          remaining = [[PerMinuteInterval 60000], [PerMinuteInterval 120000]],
          trace = ([] :: nat obs list) \<rparr>"
  have h: "0 < adjustedMaxTokensPerSecond defaults \<and> 0 < adjustedMaxTokensPerMinute defaults
        \<and> 0 < (1::nat) \<and> refillsWithin 1 (remaining ?w) \<and> 1 * length ?fns \<le> length (remaining ?w)
        \<and> map settles ?fns = map Fulfilled [10, 20]"
    by (simp add: defaults_capacity replenishes_def)
  from executePromisesWithRateLimit_in_order[where cfg = defaults and w = ?w and promiseFns = ?fns
      and vs = "[10, 20]" and k = 1] h
  obtain w' where "executePromisesWithRateLimit defaults ?fns ?w = (Fulfilled [10, 20], w')"
    "calledOf (trace w') = calledOf (trace ?w) @ ?fns"
    by blast
  then show ?thesis by (simp add: defaults_capacity)
qed

text \<open>
  A queue of two producers, the second of which rejects: the run rejects, and returns
  no outcome at all.
\<close>

theorem executePromisesWithRateLimit_counterexample:
  "fst (executePromisesWithRateLimit defaults
     [PromiseFn [] (Fulfilled (10::nat)), PromiseFn [] (Rejected (Error ''boom''))]
     \<lparr> provider = initialLimiter defaults 0 0, remaining = [], trace = [] \<rparr>)
   = Rejected (Error ''boom'')"
  by (simp add: executePromisesWithRateLimit_def initialLimiter_def defaults_capacity
      blocked_def takeTokens_def runTimers_def Let_def)



text \<open>
  C6. A rejection is not caught. When the producers before \<open>f\<close> fulfil and \<open>f\<close>
  rejects with \<open>e\<close>, the run never resolves: under any schedule it either rejects
  with \<open>e\<close>, having called the producers up to \<open>f\<close> and no other and having reported
  progress once for each task before \<open>f\<close>, or it is still waiting for a token at or
  before \<open>f\<close>. When the capacities are positive and the timers refill often enough it
  rejects with \<open>e\<close>. No producer after \<open>f\<close> is called in either case.
\<close>

theorem rejection_aborts_the_run:
  "(map settles pre = map Fulfilled vs \<and> settles f = Rejected e \<longrightarrow>
      (fst (executePromisesWithRateLimit cfg (pre @ f # post) w) = Rejected e
       \<and> calledOf (trace (snd (executePromisesWithRateLimit cfg (pre @ f # post) w))) =
           calledOf (trace w) @ pre @ [f]
       \<and> length (filter isProgress (trace (snd (executePromisesWithRateLimit cfg (pre @ f # post) w)))) =
           length (filter isProgress (trace w)) + length pre)
      \<or> (fst (executePromisesWithRateLimit cfg (pre @ f # post) w) = Pending
          \<and> (\<exists>m\<le>length pre.
               calledOf (trace (snd (executePromisesWithRateLimit cfg (pre @ f # post) w))) =
                 calledOf (trace w) @ take m pre)))
   \<and> (0 < adjustedMaxTokensPerSecond cfg \<and> 0 < adjustedMaxTokensPerMinute cfg
        \<and> 0 < k \<and> refillsWithin k (remaining w) \<and> k * (length pre + 1) \<le> length (remaining w)
        \<and> map settles pre = map Fulfilled vs \<and> settles f = Rejected e \<longrightarrow>
        fst (executePromisesWithRateLimit cfg (pre @ f # post) w) = Rejected e
        \<and> calledOf (trace (snd (executePromisesWithRateLimit cfg (pre @ f # post) w))) =
            calledOf (trace w) @ pre @ [f])"
proof -
  let ?N = "length (pre @ f # post)"
  let ?R = "executePromisesWithRateLimit cfg (pre @ f # post) w"
  have general: "(fst ?R = Rejected e
       \<and> calledOf (trace (snd ?R)) = calledOf (trace w) @ pre @ [f]
       \<and> length (filter isProgress (trace (snd ?R))) =
           length (filter isProgress (trace w)) + length pre)
      \<or> (fst ?R = Pending
          \<and> (\<exists>m\<le>length pre. calledOf (trace (snd ?R)) = calledOf (trace w) @ take m pre))"
    if a: "map settles pre = map Fulfilled vs" "settles f = Rejected e"
  proof -
    have len: "length vs = length pre" using a(1) by (metis length_map)
    from forOf_rejecting[OF a, of cfg ?N post "[]" 0 w]
    show ?thesis
    proof (elim disjE exE conjE)
      assume r: "fst (forOf cfg ?N (pre @ f # post) [] 0 w) = Rejected e"
        "trace (snd (forOf cfg ?N (pre @ f # post) [] 0 w)) =
           trace w @ sequentialTrace ?N 0 (zip pre vs) @ [Acquired, Called f]"
      have "calledOf (trace (snd ?R)) = calledOf (trace w) @ pre @ [f]"
        using r(2) len
        by (simp add: executePromisesWithRateLimit_def calledOf_append calledOf_sequentialTrace)
      moreover have "length (filter isProgress (trace (snd ?R))) =
           length (filter isProgress (trace w)) + length pre"
        using r(2) progress_sequentialTrace[OF len, of ?N 0]
        by (simp add: executePromisesWithRateLimit_def)
      ultimately show ?thesis using r(1) by (simp add: executePromisesWithRateLimit_def)
    next
      fix m
      assume p: "fst (forOf cfg ?N (pre @ f # post) [] 0 w) = Pending" "m \<le> length pre"
        "trace (snd (forOf cfg ?N (pre @ f # post) [] 0 w)) =
           trace w @ sequentialTrace ?N 0 (take m (zip pre vs))"
      have "calledOf (trace (snd ?R)) = calledOf (trace w) @ take m pre"
        using p(3) len
        by (simp add: executePromisesWithRateLimit_def calledOf_append
            calledOf_sequentialTrace_take)
      then show ?thesis using p(1,2) by (auto simp: executePromisesWithRateLimit_def)
    qed
  qed
  have fair: "fst ?R = Rejected e \<and> calledOf (trace (snd ?R)) = calledOf (trace w) @ pre @ [f]"
    if a: "0 < adjustedMaxTokensPerSecond cfg \<and> 0 < adjustedMaxTokensPerMinute cfg
        \<and> 0 < k \<and> refillsWithin k (remaining w) \<and> k * (length pre + 1) \<le> length (remaining w)
        \<and> map settles pre = map Fulfilled vs \<and> settles f = Rejected e"
  proof -
    from a have "fst ?R = Rejected e"
      using forOf_rejecting_fair[of cfg k pre vs f e w ?N post "[]" 0]
      by (simp add: executePromisesWithRateLimit_def)
    then show ?thesis using general a by auto
  qed
  show ?thesis using general fair by blast
qed

text \<open>Three tasks, the second of which rejects: the third is never called.\<close>

theorem rejection_aborts_the_run_witness:
  "0 < adjustedMaxTokensPerSecond defaults \<and> 0 < adjustedMaxTokensPerMinute defaults
   \<and> fst (executePromisesWithRateLimit defaults
        ([PromiseFn [] (Fulfilled (10::nat))] @ PromiseFn [] (Rejected (Error ''boom''))
           # [PromiseFn [] (Fulfilled 30)])
        \<lparr> provider = initialLimiter defaults 0 0,
          remaining = [[PerMinuteInterval 60000], [PerMinuteInterval 120000]],
          trace = [] \<rparr>) = Rejected (Error ''boom'')
   \<and> calledOf (trace (snd (executePromisesWithRateLimit defaults
        ([PromiseFn [] (Fulfilled (10::nat))] @ PromiseFn [] (Rejected (Error ''boom''))
           # [PromiseFn [] (Fulfilled 30)])
        \<lparr> provider = initialLimiter defaults 0 0,
          remaining = [[PerMinuteInterval 60000], [PerMinuteInterval 120000]],
          trace = [] \<rparr>))) =
       [PromiseFn [] (Fulfilled 10), PromiseFn [] (Rejected (Error ''boom''))]"
proof -
  let ?pre = "[PromiseFn [] (Fulfilled (10::nat))]"
  let ?f = "PromiseFn [] (Rejected (Error ''boom'')) :: nat promiseFn"
  let ?post = "[PromiseFn [] (Fulfilled (30::nat))]"
  let ?w = "\<lparr> provider = initialLimiter defaults 0 0,
          remaining = [[PerMinuteInterval 60000], [PerMinuteInterval 120000]],
          trace = ([] :: nat obs list) \<rparr>"
  have h: "0 < adjustedMaxTokensPerSecond defaults \<and> 0 < adjustedMaxTokensPerMinute defaults
        \<and> 0 < (1::nat) \<and> refillsWithin 1 (remaining ?w) \<and> 1 * (length ?pre + 1) \<le> length (remaining ?w)
        \<and> map settles ?pre = map Fulfilled [10] \<and> settles ?f = Rejected (Error ''boom'')"
    by (simp add: defaults_capacity replenishes_def)
  from rejection_aborts_the_run[of ?pre "[10]" ?f "Error ''boom''" defaults ?post ?w 1] h
  have "fst (executePromisesWithRateLimit defaults (?pre @ ?f # ?post) ?w) = Rejected (Error ''boom'')
        \<and> calledOf (trace (snd (executePromisesWithRateLimit defaults (?pre @ ?f # ?post) ?w))) =
            calledOf (trace ?w) @ ?pre @ [?f]"
    by blast
  then show ?thesis by (simp add: defaults_capacity)
qed

end
